theory Spec2Isabelle
  imports Main "HOL-Library.Word" "HOL-Library.Multiset"
begin

section \<open>libavcodec/hw_base_encode.h: limits and picture types\<close>

text \<open>
  The header fixes five capacities with \<^verbatim>\<open>#define\<close>. They size the arrays of
  \<^verbatim>\<open>HWBaseEncodePicture\<close> and \<^verbatim>\<open>HWBaseEncodeContext\<close>.
\<close>

definition MAX_DPB_SIZE :: nat where
  "MAX_DPB_SIZE = 16"

definition MAX_PICTURE_REFERENCES :: nat where
  "MAX_PICTURE_REFERENCES = 2"

definition MAX_REORDER_DELAY :: nat where
  "MAX_REORDER_DELAY = 16"

definition MAX_ASYNC_DEPTH :: nat where
  "MAX_ASYNC_DEPTH = 64"


text \<open>The anonymous enum of picture types; a C \<^verbatim>\<open>int\<close> is a 32-bit word read signed.\<close>

definition PICTURE_TYPE_IDR :: "32 word" where
  "PICTURE_TYPE_IDR = 0"

definition PICTURE_TYPE_I :: "32 word" where
  "PICTURE_TYPE_I = 1"

definition PICTURE_TYPE_P :: "32 word" where
  "PICTURE_TYPE_P = 2"

definition PICTURE_TYPE_B :: "32 word" where
  "PICTURE_TYPE_B = 3"

text \<open>
  What a call can end with other than a value. \<^verbatim>\<open>OutOfBounds\<close> stands for a read
  outside an array, which C leaves undefined; \<^verbatim>\<open>EAGAIN\<close> is the "would block"
  answer of the engine and \<^verbatim>\<open>EINVAL\<close> a request the engine cannot serve.
\<close>

datatype error = OutOfBounds | EAGAIN | EINVAL

text \<open>
  \<^verbatim>\<open>
  static inline const char *ff_hw_base_encode_get_pictype_name(const int type) {
      const char * const picture_type_name[] = { "IDR", "I", "P", "B" };
      return picture_type_name[type];
  }
  \<close>
  The array has four entries and the function indexes it with no check, so the
  model returns the entry when the index is inside the array and \<^verbatim>\<open>OutOfBounds\<close>
  otherwise.
\<close>

definition picture_type_name :: "string list" where
  "picture_type_name = [''IDR'', ''I'', ''P'', ''B'']"

definition ff_hw_base_encode_get_pictype_name :: "32 word \<Rightarrow> error + string" where
  "ff_hw_base_encode_get_pictype_name type =
     (if 0 \<le> sint type \<and> sint type < int (length picture_type_name)
      then Inr (picture_type_name ! nat (sint type))
      else Inl OutOfBounds)"

section \<open>Picture records and the encoder context\<close>

text \<open>
  \<^verbatim>\<open>HWBaseEncodePicture\<close>, with the fields the scheduling engine reads and writes.
  The pointers of the C struct (\<^verbatim>\<open>next\<close>, \<^verbatim>\<open>refs[][]\<close>) become the position
  in a list and the \<^verbatim>\<open>display_order\<close> of the picture pointed to, a stable handle.
  \<^verbatim>\<open>refs\<close> holds one list per direction (\<^verbatim>\<open>refs[0][]\<close> previous, \<^verbatim>\<open>refs[1][]\<close>
  future reference frames) and \<^verbatim>\<open>nb_refs[i]\<close> is the length of list \<open>i\<close>. The
  \<^verbatim>\<open>int64_t\<close> counters are unbounded integers: they start at zero and grow by one
  per frame, and signed overflow is undefined in C.
\<close>

record HWBaseEncodePicture =
  display_order :: int
  encode_order :: int
  pts :: int
  type :: "32 word"
  encode_issued :: bool
  encode_complete :: bool
  refs :: "int list list"

definition nb_refs :: "HWBaseEncodePicture \<Rightarrow> nat \<Rightarrow> nat" where
  "nb_refs pic i = length (refs pic ! i)"

text \<open>
  \<^verbatim>\<open>HWBaseEncodeContext\<close>: the encoding window \<^verbatim>\<open>pic_start .. pic_end\<close> in display
  order, the three order counters, the FIFO of buffered pictures and its bound.
  The context's own \<^verbatim>\<open>encode_order\<close> field ("next encode order index") is
  \<open>ctx_encode_order\<close> here, since the picture has a field of the same name.
\<close>

record HWBaseEncodeContext =
  pic_window :: "HWBaseEncodePicture list"
  input_order :: int
  ctx_encode_order :: int
  output_order :: int
  end_of_stream :: bool
  encode_fifo :: "int list"
  async_depth :: int

section \<open>The scheduling engine\<close>

text \<open>
  Modelled from the spec: the header declares \<^verbatim>\<open>ff_hw_base_encode_init\<close>,
  \<^verbatim>\<open>ff_hw_base_encode_receive_packet\<close> and \<^verbatim>\<open>ff_hw_base_encode_close\<close> and the
  option table, but their bodies (hw_base_encode.c) are missing. The definitions
  of this section follow the spec's sections 4.1, 4.3, 4.4, 5 and 6 and the
  comments on the header's fields.

  The option table gives \<^verbatim>\<open>async_depth\<close> the default 2 and the range
  \<^verbatim>\<open>1 .. MAX_ASYNC_DEPTH\<close>; a value outside the range is refused. \<^verbatim>\<open>init\<close> starts
  with an empty window and all counters at zero.
\<close>

definition ff_hw_base_encode_init :: "int \<Rightarrow> error + HWBaseEncodeContext" where
  "ff_hw_base_encode_init depth =
     (if 1 \<le> depth \<and> depth \<le> int MAX_ASYNC_DEPTH
      then Inr \<lparr>pic_window = [], input_order = 0, ctx_encode_order = 0, output_order = 0,
                end_of_stream = False, encode_fifo = [], async_depth = depth\<rparr>
      else Inl EINVAL)"

text \<open>
  Modelled from the spec: the frame intake is missing. By 4.1 ("admit") a frame is appended at the tail of the
  window in display order; \<^verbatim>\<open>input_order\<close> is the "next input order index
  (display order)". The picture type is the GOP decider's answer; the spec does
  not fix the P/B pattern, so the type comes with the frame.
\<close>

definition admit :: "int \<Rightarrow> 32 word \<Rightarrow> HWBaseEncodeContext \<Rightarrow> HWBaseEncodeContext" where
  "admit frame_pts frame_type ctx =
     ctx\<lparr>pic_window := pic_window ctx @
            [\<lparr>display_order = input_order ctx, encode_order = 0, pts = frame_pts,
              type = frame_type, encode_issued = False, encode_complete = False,
              refs = [[], []]\<rparr>],
         input_order := input_order ctx + 1\<rparr>"

text \<open>
  Modelled from the spec: the reference builder is missing. By 4.3: "walk backward from the picture
  through the window, selecting the most recently encoded still-alive pictures as
  past references up to the cap, and (for B-pictures, since future frames are
  already admitted though not yet issued) forward through the window for future
  references, also up to the cap"; "0 references is valid for I/IDR". Walking
  away from the picture meets the nearer pictures first. The window of this model
  keeps every admitted picture, so all of them are alive.
\<close>

definition past_refs :: "HWBaseEncodePicture list \<Rightarrow> HWBaseEncodePicture \<Rightarrow> int list" where
  "past_refs window pic =
     (if type pic = PICTURE_TYPE_IDR \<or> type pic = PICTURE_TYPE_I then []
      else take MAX_PICTURE_REFERENCES
             (map display_order
                (filter (\<lambda>q. encode_issued q \<and> display_order q < display_order pic)
                   (rev window))))"

definition future_refs :: "HWBaseEncodePicture list \<Rightarrow> HWBaseEncodePicture \<Rightarrow> int list" where
  "future_refs window pic =
     (if type pic = PICTURE_TYPE_B
      then take MAX_PICTURE_REFERENCES
             (map display_order
                (filter (\<lambda>q. display_order pic < display_order q) window))
      else [])"

definition build :: "HWBaseEncodePicture list \<Rightarrow> HWBaseEncodePicture \<Rightarrow> HWBaseEncodePicture" where
  "build window pic = pic\<lparr>refs := [past_refs window pic, future_refs window pic]\<rparr>"

text \<open>
  Modelled from the spec: the scheduler is missing. By 4.4 and 5 it keeps \<^verbatim>\<open>encode_order\<close>, the
  "next index to assign"; "at most async_depth pictures may be simultaneously
  issued-but-not-yet-output; when the bound is reached, the Scheduler blocks
  further issuance until an output event frees a slot"; "a bounded FIFO
  (capacity = async_depth) holds issued-but-incomplete pictures". Which picture
  is next is the scheduler's choice, given here by its display order \<open>k\<close>: the
  picture must be in the window and not issued yet. Its reference lists are built,
  it takes the next encode order and enters the FIFO.
\<close>

definition pick :: "HWBaseEncodePicture list \<Rightarrow> int \<Rightarrow> HWBaseEncodePicture option" where
  "pick window k = find (\<lambda>p. display_order p = k \<and> \<not> encode_issued p) window"

definition update_pic ::
  "int \<Rightarrow> (HWBaseEncodePicture \<Rightarrow> HWBaseEncodePicture) \<Rightarrow> HWBaseEncodePicture list
     \<Rightarrow> HWBaseEncodePicture list" where
  "update_pic k f window = map (\<lambda>p. if display_order p = k then f p else p) window"

definition issue_pic ::
  "HWBaseEncodePicture list \<Rightarrow> int \<Rightarrow> HWBaseEncodePicture \<Rightarrow> HWBaseEncodePicture" where
  "issue_pic window next_order pic =
     (build window pic)\<lparr>encode_order := next_order, encode_issued := True\<rparr>"

definition issue :: "int \<Rightarrow> HWBaseEncodeContext \<Rightarrow> error + HWBaseEncodeContext" where
  "issue k ctx =
     (if async_depth ctx \<le> int (length (encode_fifo ctx)) then Inl EAGAIN
      else case pick (pic_window ctx) k of
        None \<Rightarrow> Inl EINVAL
      | Some pic \<Rightarrow>
          Inr (ctx\<lparr>pic_window :=
                     update_pic k (issue_pic (pic_window ctx) (ctx_encode_order ctx))
                       (pic_window ctx),
                   ctx_encode_order := ctx_encode_order ctx + 1,
                   encode_fifo := encode_fifo ctx @ [k]\<rparr>))"

text \<open>
  Modelled from the spec: the output path is missing. By 5, "the engine always re-serializes output into encode
  order", so an output event completes the picture at the head of the FIFO and
  frees its slot; \<^verbatim>\<open>output_order\<close> is the "next output order index (in encode
  order)". With nothing in flight the answer is "would block".
\<close>

definition complete_pic :: "HWBaseEncodePicture \<Rightarrow> HWBaseEncodePicture" where
  "complete_pic pic = pic\<lparr>encode_complete := True\<rparr>"

definition output_step :: "HWBaseEncodeContext \<Rightarrow> error + HWBaseEncodeContext" where
  "output_step ctx =
     (case encode_fifo ctx of
        [] \<Rightarrow> Inl EAGAIN
      | k # rest \<Rightarrow>
          Inr (ctx\<lparr>pic_window := update_pic k complete_pic (pic_window ctx),
                   output_order := output_order ctx + 1,
                   encode_fifo := rest\<rparr>))"

text \<open>
  Modelled from the spec: the loop of \<^verbatim>\<open>ff_hw_base_encode_receive_packet\<close> is
  missing. A session is a sequence of events: a frame arrives, the scheduler
  picks a picture, the backend reports an output. By 6 the engine answers with a
  result or "would block"; "would block" leaves the context as it was and the
  session goes on, any other error ends it (4.4: "the error propagates to the
  caller and the session is considered fatal").
\<close>

datatype event = Admit int "32 word" | Issue int | Output

fun step :: "HWBaseEncodeContext \<Rightarrow> event \<Rightarrow> error + HWBaseEncodeContext" where
  "step ctx (Admit frame_pts frame_type) = Inr (admit frame_pts frame_type ctx)"
| "step ctx (Issue k) = issue k ctx"
| "step ctx Output = output_step ctx"

fun run :: "HWBaseEncodeContext \<Rightarrow> event list \<Rightarrow> error + HWBaseEncodeContext" where
  "run ctx [] = Inr ctx"
| "run ctx (ev # evs) =
     (case step ctx ev of
        Inr ctx' \<Rightarrow> run ctx' evs
      | Inl EAGAIN \<Rightarrow> run ctx evs
      | Inl e \<Rightarrow> Inl e)"

text \<open>The pictures in flight: issued, and their output not yet collected.\<close>

definition in_flight :: "HWBaseEncodeContext \<Rightarrow> HWBaseEncodePicture list" where
  "in_flight ctx = filter (\<lambda>p. encode_issued p \<and> \<not> encode_complete p) (pic_window ctx)"

section \<open>Invariants of the engine\<close>

text \<open>
  The window lists the admitted pictures in display order, numbered from zero,
  and \<^verbatim>\<open>input_order\<close> is the number of the next one.
\<close>

definition window_ok :: "HWBaseEncodeContext \<Rightarrow> bool" where
  "window_ok ctx \<longleftrightarrow>
     map display_order (pic_window ctx) = map int [0..<length (pic_window ctx)] \<and>
     input_order ctx = int (length (pic_window ctx))"

text \<open>Only an issued picture is ever complete.\<close>

definition flags_ok :: "HWBaseEncodeContext \<Rightarrow> bool" where
  "flags_ok ctx \<longleftrightarrow> (\<forall>p\<in>set (pic_window ctx). encode_complete p \<longrightarrow> encode_issued p)"

text \<open>
  The encode orders handed out so far are exactly \<open>0, \<dots>, ctx_encode_order - 1\<close>,
  and no two issued pictures share one.
\<close>

definition orders_ok :: "HWBaseEncodeContext \<Rightarrow> bool" where
  "orders_ok ctx \<longleftrightarrow>
     0 \<le> ctx_encode_order ctx \<and>
     encode_order ` {p \<in> set (pic_window ctx). encode_issued p} = {0..<ctx_encode_order ctx} \<and>
     (\<forall>p\<in>set (pic_window ctx). \<forall>q\<in>set (pic_window ctx).
        encode_issued p \<and> encode_issued q \<and> encode_order p = encode_order q \<longrightarrow> p = q)"

text \<open>
  The FIFO holds the handles of the pictures in flight, each once, and never more
  than \<^verbatim>\<open>async_depth\<close> of them.
\<close>

definition fifo_ok :: "HWBaseEncodeContext \<Rightarrow> bool" where
  "fifo_ok ctx \<longleftrightarrow>
     distinct (encode_fifo ctx) \<and>
     set (encode_fifo ctx) = display_order ` set (in_flight ctx) \<and>
     int (length (encode_fifo ctx)) \<le> async_depth ctx"

definition engine_inv :: "HWBaseEncodeContext \<Rightarrow> bool" where
  "engine_inv ctx \<longleftrightarrow> window_ok ctx \<and> flags_ok ctx \<and> orders_ok ctx \<and> fifo_ok ctx"

section \<open>Picture type names\<close>

lemma pictype_name_in_range:
  assumes "0 \<le> sint t" and "sint t \<le> 3"
  shows "\<exists>s. ff_hw_base_encode_get_pictype_name t = Inr s"
  using assms by (simp add: ff_hw_base_encode_get_pictype_name_def picture_type_name_def)

lemma pictype_name_out_of_range:
  assumes "\<not> (0 \<le> sint t \<and> sint t \<le> 3)"
  shows "ff_hw_base_encode_get_pictype_name t = Inl OutOfBounds"
  using assms by (auto simp add: ff_hw_base_encode_get_pictype_name_def picture_type_name_def)

text \<open>
  Claim C9. The name lookup returns exactly "IDR", "I", "P", "B" for the types
  0, 1, 2, 3 (\<^verbatim>\<open>PICTURE_TYPE_IDR\<close> to \<^verbatim>\<open>PICTURE_TYPE_B\<close>); it yields a name
  precisely when \<open>0 \<le> type \<le> 3\<close>, and for every other value of the \<^verbatim>\<open>int\<close>
  argument the lookup reads outside the four-element array.
\<close>

theorem pictype_name_contract:
  "ff_hw_base_encode_get_pictype_name PICTURE_TYPE_IDR = Inr ''IDR'' \<and>
   ff_hw_base_encode_get_pictype_name PICTURE_TYPE_I = Inr ''I'' \<and>
   ff_hw_base_encode_get_pictype_name PICTURE_TYPE_P = Inr ''P'' \<and>
   ff_hw_base_encode_get_pictype_name PICTURE_TYPE_B = Inr ''B'' \<and>
   length picture_type_name = 4 \<and>
   (\<forall>t. (\<exists>s. ff_hw_base_encode_get_pictype_name t = Inr s) \<longleftrightarrow> (0 \<le> sint t \<and> sint t \<le> 3)) \<and>
   (\<forall>t. \<not> (0 \<le> sint t \<and> sint t \<le> 3) \<longrightarrow>
        ff_hw_base_encode_get_pictype_name t = Inl OutOfBounds)"
proof -
  have names:
    "ff_hw_base_encode_get_pictype_name PICTURE_TYPE_IDR = Inr ''IDR''"
    "ff_hw_base_encode_get_pictype_name PICTURE_TYPE_I = Inr ''I''"
    "ff_hw_base_encode_get_pictype_name PICTURE_TYPE_P = Inr ''P''"
    "ff_hw_base_encode_get_pictype_name PICTURE_TYPE_B = Inr ''B''"
    by (simp_all add: ff_hw_base_encode_get_pictype_name_def picture_type_name_def
        PICTURE_TYPE_IDR_def PICTURE_TYPE_I_def PICTURE_TYPE_P_def PICTURE_TYPE_B_def)
  have len: "length picture_type_name = 4"
    by (simp add: picture_type_name_def)
  have iff: "(\<exists>s. ff_hw_base_encode_get_pictype_name t = Inr s) \<longleftrightarrow> (0 \<le> sint t \<and> sint t \<le> 3)" for t
  proof
    assume "\<exists>s. ff_hw_base_encode_get_pictype_name t = Inr s"
    then obtain s where s: "ff_hw_base_encode_get_pictype_name t = Inr s" ..
    show "0 \<le> sint t \<and> sint t \<le> 3"
    proof (rule ccontr)
      assume "\<not> (0 \<le> sint t \<and> sint t \<le> 3)"
      then have "ff_hw_base_encode_get_pictype_name t = Inl OutOfBounds"
        by (rule pictype_name_out_of_range)
      with s show False by simp
    qed
  next
    assume "0 \<le> sint t \<and> sint t \<le> 3"
    then show "\<exists>s. ff_hw_base_encode_get_pictype_name t = Inr s"
      using pictype_name_in_range [of t] by simp
  qed
  show ?thesis
    using names len iff pictype_name_out_of_range by blast
qed

theorem pictype_name_contract_witness:
  "ff_hw_base_encode_get_pictype_name 4 = Inl OutOfBounds \<and>
   ff_hw_base_encode_get_pictype_name (- 1) = Inl OutOfBounds \<and>
   (\<exists>s. ff_hw_base_encode_get_pictype_name 2 = Inr s)"
proof -
  have a: "\<not> (0 \<le> sint (4 :: 32 word) \<and> sint (4 :: 32 word) \<le> 3)" by simp
  have b: "\<not> (0 \<le> sint (- 1 :: 32 word) \<and> sint (- 1 :: 32 word) \<le> 3)" by simp
  have c: "0 \<le> sint (2 :: 32 word) \<and> sint (2 :: 32 word) \<le> 3" by simp
  from pictype_name_contract a b c show ?thesis by blast
qed

section \<open>The engine keeps its invariants\<close>

lemma window_ok_distinct:
  assumes "window_ok ctx"
  shows "distinct (map display_order (pic_window ctx))"
proof -
  have "distinct (map int [0..<length (pic_window ctx)])"
    by (simp add: distinct_map)
  with assms show ?thesis by (simp add: window_ok_def)
qed

lemma window_ok_inj:
  assumes "window_ok ctx" "p \<in> set (pic_window ctx)" "q \<in> set (pic_window ctx)"
    "display_order p = display_order q"
  shows "p = q"
  using window_ok_distinct [OF assms(1)] assms(2-4)
  by (auto simp add: distinct_map dest: inj_onD)

lemma window_ok_range:
  assumes "window_ok ctx" "p \<in> set (pic_window ctx)"
  shows "0 \<le> display_order p \<and> display_order p < input_order ctx"
proof -
  from assms(2) have "display_order p \<in> set (map display_order (pic_window ctx))" by simp
  also have "\<dots> = set (map int [0..<length (pic_window ctx)])"
    using assms(1) by (simp add: window_ok_def)
  finally show ?thesis using assms(1) by (auto simp add: window_ok_def)
qed

lemma pick_Some:
  assumes "pick w k = Some pic"
  shows "pic \<in> set w \<and> display_order pic = k \<and> \<not> encode_issued pic"
  using assms by (auto simp add: pick_def find_Some_iff)

lemma window_ok_admit: "window_ok ctx \<Longrightarrow> window_ok (admit a b ctx)"
  by (simp add: window_ok_def admit_def)

lemma issue_Inr:
  assumes "issue k ctx = Inr ctx'"
  obtains pic where "pick (pic_window ctx) k = Some pic"
    and "int (length (encode_fifo ctx)) < async_depth ctx"
    and "ctx' = ctx\<lparr>pic_window :=
                     update_pic k (issue_pic (pic_window ctx) (ctx_encode_order ctx))
                       (pic_window ctx),
                   ctx_encode_order := ctx_encode_order ctx + 1,
                   encode_fifo := encode_fifo ctx @ [k]\<rparr>"
  using assms by (auto simp add: issue_def split: if_splits option.splits)

lemma output_step_Inr:
  assumes "output_step ctx = Inr ctx'"
  obtains k rest where "encode_fifo ctx = k # rest"
    and "ctx' = ctx\<lparr>pic_window := update_pic k complete_pic (pic_window ctx),
                   output_order := output_order ctx + 1,
                   encode_fifo := rest\<rparr>"
  using assms by (cases "encode_fifo ctx") (auto simp add: output_step_def)

lemma display_order_issue_pic [simp]: "display_order (issue_pic w n p) = display_order p"
  by (simp add: issue_pic_def build_def)

lemma display_order_complete_pic [simp]: "display_order (complete_pic p) = display_order p"
  by (simp add: complete_pic_def)

lemma display_order_update_pic:
  assumes "\<And>p. display_order (f p) = display_order p"
  shows "map display_order (update_pic k f w) = map display_order w"
  using assms by (induction w) (auto simp add: update_pic_def)

lemma length_update_pic [simp]: "length (update_pic k f w) = length w"
  by (simp add: update_pic_def)

lemma window_ok_update_pic:
  assumes "window_ok ctx" and "\<And>p. display_order (f p) = display_order p"
    and "pic_window ctx' = update_pic k f (pic_window ctx)"
    and "input_order ctx' = input_order ctx"
  shows "window_ok ctx'"
  using assms(1,3,4) display_order_update_pic [of f k "pic_window ctx", OF assms(2)]
  by (simp add: window_ok_def)

lemma window_ok_issue:
  assumes "window_ok ctx" and "issue k ctx = Inr ctx'"
  shows "window_ok ctx'"
  using assms(2)
proof (rule issue_Inr)
  fix pic
  assume "ctx' = ctx\<lparr>pic_window :=
                     update_pic k (issue_pic (pic_window ctx) (ctx_encode_order ctx))
                       (pic_window ctx),
                   ctx_encode_order := ctx_encode_order ctx + 1,
                   encode_fifo := encode_fifo ctx @ [k]\<rparr>"
  then show ?thesis
    by (intro window_ok_update_pic [OF assms(1), where f = "issue_pic (pic_window ctx) (ctx_encode_order ctx)" and k = k]) simp_all
qed

lemma window_ok_output:
  assumes "window_ok ctx" and "output_step ctx = Inr ctx'"
  shows "window_ok ctx'"
  using assms(2)
proof (rule output_step_Inr)
  fix k rest
  assume "ctx' = ctx\<lparr>pic_window := update_pic k complete_pic (pic_window ctx),
                   output_order := output_order ctx + 1,
                   encode_fifo := rest\<rparr>"
  then show ?thesis
    by (intro window_ok_update_pic [OF assms(1), where f = complete_pic and k = k]) simp_all
qed

text \<open>Updating the picture with a given handle replaces exactly that picture.\<close>

lemma set_update_pic:
  assumes "window_ok ctx" and "x \<in> set (pic_window ctx)" and "display_order x = k"
  shows "set (update_pic k f (pic_window ctx)) = insert (f x) (set (pic_window ctx) - {x})"
proof -
  let ?g = "\<lambda>p. if display_order p = k then f p else p"
  have eq: "p = x" if "p \<in> set (pic_window ctx)" "display_order p = k" for p
    using window_ok_inj [OF assms(1) that(1) assms(2)] that(2) assms(3) by simp
  have img: "set (update_pic k f (pic_window ctx)) = ?g ` set (pic_window ctx)"
    by (simp add: update_pic_def)
  show ?thesis
  proof (rule set_eqI)
    fix y
    show "y \<in> set (update_pic k f (pic_window ctx)) \<longleftrightarrow>
          y \<in> insert (f x) (set (pic_window ctx) - {x})"
    proof
      assume "y \<in> set (update_pic k f (pic_window ctx))"
      then obtain p where p: "p \<in> set (pic_window ctx)" "y = ?g p"
        unfolding img by blast
      show "y \<in> insert (f x) (set (pic_window ctx) - {x})"
      proof (cases "display_order p = k")
        case True
        with p eq show ?thesis by simp
      next
        case False
        with p assms(3) show ?thesis by auto
      qed
    next
      assume "y \<in> insert (f x) (set (pic_window ctx) - {x})"
      then consider "y = f x" | "y \<in> set (pic_window ctx)" "y \<noteq> x" by blast
      then show "y \<in> set (update_pic k f (pic_window ctx))"
      proof cases
        case 1
        then have "y = ?g x" using assms(3) by simp
        then show ?thesis unfolding img using assms(2) by blast
      next
        case 2
        then have "display_order y \<noteq> k" using eq by blast
        then have "y = ?g y" by simp
        then show ?thesis unfolding img using 2(1) by blast
      qed
    qed
  qed
qed


lemma issue_pic_simps [simp]:
  "encode_issued (issue_pic w n p)"
  "encode_order (issue_pic w n p) = n"
  "encode_complete (issue_pic w n p) = encode_complete p"
  by (simp_all add: issue_pic_def build_def)

lemma complete_pic_simps [simp]:
  "encode_complete (complete_pic p)"
  "encode_issued (complete_pic p) = encode_issued p"
  "encode_order (complete_pic p) = encode_order p"
  "refs (complete_pic p) = refs p"
  by (simp_all add: complete_pic_def)

lemma set_in_flight:
  "set (in_flight ctx) = {p \<in> set (pic_window ctx). encode_issued p \<and> \<not> encode_complete p}"
  by (auto simp add: in_flight_def)

lemma set_window_issue:
  assumes "window_ok ctx" and "issue k ctx = Inr ctx'"
  obtains x where "x \<in> set (pic_window ctx)" "display_order x = k" "\<not> encode_issued x"
    "set (pic_window ctx') =
       insert (issue_pic (pic_window ctx) (ctx_encode_order ctx) x) (set (pic_window ctx) - {x})"
    "ctx_encode_order ctx' = ctx_encode_order ctx + 1"
    "encode_fifo ctx' = encode_fifo ctx @ [k]"
    "async_depth ctx' = async_depth ctx"
    "int (length (encode_fifo ctx)) < async_depth ctx"
  using assms(2)
proof (rule issue_Inr)
  fix pic
  assume pk: "pick (pic_window ctx) k = Some pic"
    and len: "int (length (encode_fifo ctx)) < async_depth ctx"
    and c': "ctx' = ctx\<lparr>pic_window :=
                     update_pic k (issue_pic (pic_window ctx) (ctx_encode_order ctx))
                       (pic_window ctx),
                   ctx_encode_order := ctx_encode_order ctx + 1,
                   encode_fifo := encode_fifo ctx @ [k]\<rparr>"
  from pick_Some [OF pk] have x: "pic \<in> set (pic_window ctx)" "display_order pic = k"
    "\<not> encode_issued pic" by simp_all
  have "set (pic_window ctx') =
      insert (issue_pic (pic_window ctx) (ctx_encode_order ctx) pic) (set (pic_window ctx) - {pic})"
    using set_update_pic [OF assms(1) x(1,2)] c' by simp
  with x len c' that show ?thesis by simp
qed

lemma set_window_output:
  assumes "window_ok ctx" and "fifo_ok ctx" and "output_step ctx = Inr ctx'"
  obtains x k rest where "x \<in> set (pic_window ctx)" "display_order x = k"
    "encode_issued x" "\<not> encode_complete x"
    "set (pic_window ctx') = insert (complete_pic x) (set (pic_window ctx) - {x})"
    "ctx_encode_order ctx' = ctx_encode_order ctx"
    "encode_fifo ctx = k # rest" "encode_fifo ctx' = rest"
    "async_depth ctx' = async_depth ctx"
  using assms(3)
proof (rule output_step_Inr)
  fix k rest
  assume f: "encode_fifo ctx = k # rest"
    and c': "ctx' = ctx\<lparr>pic_window := update_pic k complete_pic (pic_window ctx),
                   output_order := output_order ctx + 1,
                   encode_fifo := rest\<rparr>"
  from f assms(2) have "k \<in> display_order ` set (in_flight ctx)"
    by (auto simp add: fifo_ok_def)
  then obtain x where x: "x \<in> set (pic_window ctx)" "display_order x = k"
    "encode_issued x" "\<not> encode_complete x"
    by (auto simp add: set_in_flight)
  have "set (pic_window ctx') = insert (complete_pic x) (set (pic_window ctx) - {x})"
    using set_update_pic [OF assms(1) x(1,2)] c' by simp
  with x f c' that show ?thesis by simp
qed

lemma flags_ok_step:
  assumes "window_ok ctx" and "fifo_ok ctx" and "flags_ok ctx" and "step ctx ev = Inr ctx'"
  shows "flags_ok ctx'"
proof (cases ev)
  case (Admit a b)
  with assms(3,4) show ?thesis by (auto simp add: flags_ok_def admit_def)
next
  case (Issue k)
  with assms(4) have "issue k ctx = Inr ctx'" by simp
  from assms(1) this show ?thesis
  proof (rule set_window_issue)
    fix x
    assume "set (pic_window ctx') =
       insert (issue_pic (pic_window ctx) (ctx_encode_order ctx) x) (set (pic_window ctx) - {x})"
    with assms(3) show ?thesis by (auto simp add: flags_ok_def)
  qed
next
  case Output
  with assms(4) have "output_step ctx = Inr ctx'" by simp
  from assms(1,2) this show ?thesis
  proof (rule set_window_output)
    fix x
    assume "set (pic_window ctx') = insert (complete_pic x) (set (pic_window ctx) - {x})"
      and "encode_issued x"
    with assms(3) show ?thesis by (auto simp add: flags_ok_def)
  qed
qed


lemma orders_ok_admit:
  assumes "orders_ok ctx"
  shows "orders_ok (admit a b ctx)"
proof -
  let ?new = "\<lparr>display_order = input_order ctx, encode_order = 0, pts = a,
              type = b, encode_issued = False, encode_complete = False,
              refs = [[], []]\<rparr>"
  have w: "set (pic_window (admit a b ctx)) = insert ?new (set (pic_window ctx))"
    by (simp add: admit_def)
  have "{p \<in> set (pic_window (admit a b ctx)). encode_issued p} =
        {p \<in> set (pic_window ctx). encode_issued p}"
    unfolding w by auto
  moreover have "ctx_encode_order (admit a b ctx) = ctx_encode_order ctx"
    by (simp add: admit_def)
  ultimately show ?thesis
    using assms unfolding orders_ok_def w by auto
qed

lemma orders_ok_issue:
  assumes "window_ok ctx" and "orders_ok ctx" and "issue k ctx = Inr ctx'"
  shows "orders_ok ctx'"
  using assms(1,3)
proof (rule set_window_issue)
  fix x
  let ?n = "ctx_encode_order ctx"
  let ?y = "issue_pic (pic_window ctx) ?n x"
  assume x: "x \<in> set (pic_window ctx)" "\<not> encode_issued x"
    and w: "set (pic_window ctx') = insert ?y (set (pic_window ctx) - {x})"
    and n: "ctx_encode_order ctx' = ?n + 1"
  from assms(2) have n0: "0 \<le> ?n"
    and img: "encode_order ` {p \<in> set (pic_window ctx). encode_issued p} = {0..<?n}"
    and inj: "\<And>p q. p \<in> set (pic_window ctx) \<Longrightarrow> q \<in> set (pic_window ctx) \<Longrightarrow>
        encode_issued p \<Longrightarrow> encode_issued q \<Longrightarrow> encode_order p = encode_order q \<Longrightarrow> p = q"
    by (auto simp add: orders_ok_def)
  have old: "encode_order p < ?n" if "p \<in> set (pic_window ctx)" "encode_issued p" for p
  proof -
    from that have "encode_order p \<in> encode_order ` {p \<in> set (pic_window ctx). encode_issued p}"
      by blast
    with img show ?thesis by simp
  qed
  have iss: "{p \<in> set (pic_window ctx'). encode_issued p} =
             insert ?y {p \<in> set (pic_window ctx). encode_issued p}"
    unfolding w using x by auto
  have "encode_order ` {p \<in> set (pic_window ctx'). encode_issued p} = insert ?n {0..<?n}"
    unfolding iss using img by simp
  also have "\<dots> = {0..<?n + 1}" using n0 by auto
  finally have img': "encode_order ` {p \<in> set (pic_window ctx'). encode_issued p} =
      {0..<ctx_encode_order ctx'}" using n by simp
  have inj': "p = q" if "p \<in> set (pic_window ctx')" "q \<in> set (pic_window ctx')"
      "encode_issued p" "encode_issued q" "encode_order p = encode_order q" for p q
  proof -
    from that(1,3) w consider "p = ?y" | "p \<in> set (pic_window ctx)" "encode_issued p" by auto
    then show ?thesis
    proof cases
      case 1
      from that(2,4) w consider "q = ?y" | "q \<in> set (pic_window ctx)" "encode_issued q" by auto
      then show ?thesis
      proof cases
        case 1
        with \<open>p = ?y\<close> show ?thesis by simp
      next
        case 2
        from old [OF 2] that(5) \<open>p = ?y\<close> show ?thesis by simp
      qed
    next
      case 2
      from that(2,4) w consider "q = ?y" | "q \<in> set (pic_window ctx)" "encode_issued q" by auto
      then show ?thesis
      proof cases
        case 1
        from old [OF 2] that(5) \<open>q = ?y\<close> show ?thesis by simp
      next
        case q: 2
        from inj [OF 2(1) q(1) 2(2) q(2) that(5)] show ?thesis .
      qed
    qed
  qed
  have "\<forall>p\<in>set (pic_window ctx'). \<forall>q\<in>set (pic_window ctx').
        encode_issued p \<and> encode_issued q \<and> encode_order p = encode_order q \<longrightarrow> p = q"
    using inj' by blast
  with n0 n img' show ?thesis
    unfolding orders_ok_def by simp
qed

lemma orders_ok_output:
  assumes "window_ok ctx" and "fifo_ok ctx" and "orders_ok ctx" and "output_step ctx = Inr ctx'"
  shows "orders_ok ctx'"
  using assms(1,2,4)
proof (rule set_window_output)
  fix x
  let ?y = "complete_pic x"
  assume x: "x \<in> set (pic_window ctx)" "encode_issued x"
    and w: "set (pic_window ctx') = insert ?y (set (pic_window ctx) - {x})"
    and n: "ctx_encode_order ctx' = ctx_encode_order ctx"
  from assms(3) have n0: "0 \<le> ctx_encode_order ctx"
    and img: "encode_order ` {p \<in> set (pic_window ctx). encode_issued p} = {0..<ctx_encode_order ctx}"
    and inj: "\<And>p q. p \<in> set (pic_window ctx) \<Longrightarrow> q \<in> set (pic_window ctx) \<Longrightarrow>
        encode_issued p \<Longrightarrow> encode_issued q \<Longrightarrow> encode_order p = encode_order q \<Longrightarrow> p = q"
    by (auto simp add: orders_ok_def)
  have iss: "{p \<in> set (pic_window ctx'). encode_issued p} =
             insert ?y ({p \<in> set (pic_window ctx). encode_issued p} - {x})"
    unfolding w using x by auto
  have "encode_order ` {p \<in> set (pic_window ctx'). encode_issued p} =
        encode_order ` {p \<in> set (pic_window ctx). encode_issued p}"
  proof -
    let ?S = "{p \<in> set (pic_window ctx). encode_issued p}"
    have "?S = insert x (?S - {x})" using x by auto
    then have "encode_order ` ?S = encode_order ` insert x (?S - {x})" by simp
    also have "\<dots> = insert (encode_order x) (encode_order ` (?S - {x}))" by (rule image_insert)
    also have "\<dots> = encode_order ` insert ?y (?S - {x})" by simp
    finally show ?thesis unfolding iss by simp
  qed
  with img n have img': "encode_order ` {p \<in> set (pic_window ctx'). encode_issued p} =
      {0..<ctx_encode_order ctx'}" by simp
  have old_new: False if "p \<in> set (pic_window ctx)" "p \<noteq> x" "encode_issued p"
      "encode_order p = encode_order ?y" for p
  proof -
    from that(4) have "encode_order p = encode_order x" by simp
    from inj [OF that(1) x(1) that(3) x(2) this] that(2) show ?thesis by simp
  qed
  have inj': "p = q" if "p \<in> set (pic_window ctx')" "q \<in> set (pic_window ctx')"
      "encode_issued p" "encode_issued q" "encode_order p = encode_order q" for p q
  proof -
    from that(1) w consider "p = ?y" | "p \<in> set (pic_window ctx)" "p \<noteq> x" by blast
    then show ?thesis
    proof cases
      case 1
      from that(2) w consider "q = ?y" | "q \<in> set (pic_window ctx)" "q \<noteq> x" by blast
      then show ?thesis
      proof cases
        case 1
        with \<open>p = ?y\<close> show ?thesis by simp
      next
        case 2
        from that(5) \<open>p = ?y\<close> have "encode_order q = encode_order ?y" by simp
        from old_new [OF 2 that(4) this] show ?thesis ..
      qed
    next
      case 2
      from that(2) w consider "q = ?y" | "q \<in> set (pic_window ctx)" "q \<noteq> x" by blast
      then show ?thesis
      proof cases
        case 1
        from that(5) \<open>q = ?y\<close> have "encode_order p = encode_order ?y" by simp
        from old_new [OF 2 that(3) this] show ?thesis ..
      next
        case q: 2
        from inj [OF 2(1) q(1) that(3,4,5)] show ?thesis .
      qed
    qed
  qed
  have "\<forall>p\<in>set (pic_window ctx'). \<forall>q\<in>set (pic_window ctx').
        encode_issued p \<and> encode_issued q \<and> encode_order p = encode_order q \<longrightarrow> p = q"
    using inj' by blast
  with n0 n img' show ?thesis
    unfolding orders_ok_def by simp
qed


lemma fifo_ok_admit:
  assumes "fifo_ok ctx"
  shows "fifo_ok (admit a b ctx)"
proof -
  have "in_flight (admit a b ctx) = in_flight ctx"
    by (simp add: in_flight_def admit_def)
  moreover have "encode_fifo (admit a b ctx) = encode_fifo ctx"
    "async_depth (admit a b ctx) = async_depth ctx"
    by (simp_all add: admit_def)
  ultimately show ?thesis using assms by (simp add: fifo_ok_def)
qed

lemma fifo_ok_issue:
  assumes "window_ok ctx" and "flags_ok ctx" and "fifo_ok ctx" and "issue k ctx = Inr ctx'"
  shows "fifo_ok ctx'"
  using assms(1,4)
proof (rule set_window_issue)
  fix x
  let ?y = "issue_pic (pic_window ctx) (ctx_encode_order ctx) x"
  assume x: "x \<in> set (pic_window ctx)" "display_order x = k" "\<not> encode_issued x"
    and w: "set (pic_window ctx') = insert ?y (set (pic_window ctx) - {x})"
    and f: "encode_fifo ctx' = encode_fifo ctx @ [k]"
    and d: "async_depth ctx' = async_depth ctx"
    and len: "int (length (encode_fifo ctx)) < async_depth ctx"
  from assms(3) have dist: "distinct (encode_fifo ctx)"
    and fl: "set (encode_fifo ctx) = display_order ` set (in_flight ctx)"
    by (simp_all add: fifo_ok_def)
  from assms(2) x(1,3) have nc: "\<not> encode_complete x"
    by (auto simp add: flags_ok_def)
  have fl': "set (in_flight ctx') = insert ?y (set (in_flight ctx))"
    unfolding set_in_flight w using x(3) nc by auto
  have "k \<notin> set (encode_fifo ctx)"
  proof
    assume "k \<in> set (encode_fifo ctx)"
    with fl obtain p where p: "p \<in> set (pic_window ctx)" "encode_issued p" "display_order p = k"
      by (auto simp add: set_in_flight)
    from window_ok_inj [OF assms(1) p(1) x(1)] p(3) x(2) have "p = x" by simp
    with p(2) x(3) show False by simp
  qed
  with dist have "distinct (encode_fifo ctx')" unfolding f by simp
  moreover have "set (encode_fifo ctx') = display_order ` set (in_flight ctx')"
    unfolding f fl' using fl x(2) by simp
  moreover have "int (length (encode_fifo ctx')) \<le> async_depth ctx'"
    unfolding f d using len by simp
  ultimately show ?thesis by (simp add: fifo_ok_def)
qed

lemma fifo_ok_output:
  assumes "window_ok ctx" and "fifo_ok ctx" and "output_step ctx = Inr ctx'"
  shows "fifo_ok ctx'"
  using assms
proof (rule set_window_output)
  fix x k rest
  let ?y = "complete_pic x"
  assume x: "x \<in> set (pic_window ctx)" "display_order x = k"
      "encode_issued x" "\<not> encode_complete x"
    and w: "set (pic_window ctx') = insert ?y (set (pic_window ctx) - {x})"
    and f: "encode_fifo ctx = k # rest" "encode_fifo ctx' = rest"
    and d: "async_depth ctx' = async_depth ctx"
  from assms(2) f(1) have dist: "distinct (k # rest)"
    and fl: "set (k # rest) = display_order ` set (in_flight ctx)"
    and len: "int (length (k # rest)) \<le> async_depth ctx"
    by (simp_all add: fifo_ok_def)
  have ne: "?y \<noteq> x"
  proof
    assume "?y = x"
    then have "encode_complete x = encode_complete ?y" by simp
    with x(4) show False by simp
  qed
  have fl': "set (in_flight ctx') = set (in_flight ctx) - {x}"
    unfolding set_in_flight w using ne by auto
  have "display_order ` (set (in_flight ctx) - {x}) = display_order ` set (in_flight ctx) - {k}"
  proof (rule set_eqI)
    fix j
    show "j \<in> display_order ` (set (in_flight ctx) - {x}) \<longleftrightarrow>
          j \<in> display_order ` set (in_flight ctx) - {k}"
    proof
      assume "j \<in> display_order ` (set (in_flight ctx) - {x})"
      then obtain p where p: "p \<in> set (in_flight ctx)" "p \<noteq> x" "j = display_order p" by blast
      then have pw: "p \<in> set (pic_window ctx)" by (simp add: set_in_flight)
      have "j \<noteq> k"
      proof
        assume "j = k"
        with window_ok_inj [OF assms(1) pw x(1)] p(3) x(2) have "p = x" by simp
        with p(2) show False by simp
      qed
      with p show "j \<in> display_order ` set (in_flight ctx) - {k}" by blast
    next
      assume "j \<in> display_order ` set (in_flight ctx) - {k}"
      then obtain p where p: "p \<in> set (in_flight ctx)" "j = display_order p" "j \<noteq> k" by blast
      with x(2) have "p \<noteq> x" by auto
      with p show "j \<in> display_order ` (set (in_flight ctx) - {x})" by blast
    qed
  qed
  also have "\<dots> = set (k # rest) - {k}" using fl by simp
  also have "\<dots> = set rest" using dist by auto
  finally have "set (encode_fifo ctx') = display_order ` set (in_flight ctx')"
    unfolding f(2) fl' by simp
  moreover have "distinct (encode_fifo ctx')" using dist f(2) by simp
  moreover have "int (length (encode_fifo ctx')) \<le> async_depth ctx'"
    using len f(2) d by simp
  ultimately show ?thesis by (simp add: fifo_ok_def)
qed

lemma engine_inv_init:
  assumes "ff_hw_base_encode_init depth = Inr ctx"
  shows "engine_inv ctx" and "async_depth ctx = depth" and "1 \<le> depth" and "depth \<le> int MAX_ASYNC_DEPTH"
  using assms
  by (auto simp add: ff_hw_base_encode_init_def engine_inv_def window_ok_def flags_ok_def
      orders_ok_def fifo_ok_def in_flight_def split: if_splits)

lemma engine_inv_step:
  assumes "engine_inv ctx" and "step ctx ev = Inr ctx'"
  shows "engine_inv ctx'"
proof -
  from assms(1) have inv: "window_ok ctx" "flags_ok ctx" "orders_ok ctx" "fifo_ok ctx"
    by (simp_all add: engine_inv_def)
  have fl: "flags_ok ctx'"
    using flags_ok_step [OF inv(1,4,2) assms(2)] .
  show ?thesis
  proof (cases ev)
    case (Admit a b)
    with assms(2) have "ctx' = admit a b ctx" by simp
    with inv fl show ?thesis
      by (simp add: engine_inv_def window_ok_admit orders_ok_admit fifo_ok_admit)
  next
    case (Issue k)
    with assms(2) have "issue k ctx = Inr ctx'" by simp
    with inv fl show ?thesis
      by (simp add: engine_inv_def window_ok_issue orders_ok_issue fifo_ok_issue)
  next
    case Output
    with assms(2) have "output_step ctx = Inr ctx'" by simp
    with inv fl show ?thesis
      by (simp add: engine_inv_def window_ok_output orders_ok_output fifo_ok_output)
  qed
qed

lemma async_depth_step:
  assumes "step ctx ev = Inr ctx'"
  shows "async_depth ctx' = async_depth ctx"
proof (cases ev)
  case (Admit a b)
  with assms show ?thesis by (auto simp add: admit_def)
next
  case (Issue k)
  with assms have "issue k ctx = Inr ctx'" by simp
  then show ?thesis by (rule issue_Inr) simp
next
  case Output
  with assms have "output_step ctx = Inr ctx'" by simp
  then show ?thesis by (rule output_step_Inr) simp
qed

lemma engine_inv_run:
  assumes "engine_inv ctx" and "run ctx evs = Inr ctx'"
  shows "engine_inv ctx' \<and> async_depth ctx' = async_depth ctx"
  using assms
proof (induction evs arbitrary: ctx)
  case Nil
  then show ?case by simp
next
  case (Cons ev evs)
  show ?case
  proof (cases "step ctx ev")
    case (Inr c)
    with Cons.prems(2) have r: "run c evs = Inr ctx'" by simp
    from Cons.IH [OF engine_inv_step [OF Cons.prems(1) Inr] r] async_depth_step [OF Inr]
    show ?thesis by simp
  next
    case (Inl e)
    with Cons.prems(2) have "e = EAGAIN" and r: "run ctx evs = Inr ctx'"
      by (cases e; simp)+
    from Cons.IH [OF Cons.prems(1) r] show ?thesis .
  qed
qed


lemma window_distinct:
  assumes "window_ok ctx"
  shows "distinct (pic_window ctx)"
  using window_ok_distinct [OF assms] by (simp add: distinct_map)

lemma length_in_flight:
  assumes "window_ok ctx" and "fifo_ok ctx"
  shows "length (in_flight ctx) = length (encode_fifo ctx)"
proof -
  have d: "distinct (in_flight ctx)"
    using window_distinct [OF assms(1)] by (simp add: in_flight_def)
  have "inj_on display_order (set (pic_window ctx))"
    using window_ok_distinct [OF assms(1)] by (simp add: distinct_map)
  then have inj: "inj_on display_order (set (in_flight ctx))"
    by (rule inj_on_subset) (auto simp add: set_in_flight)
  have "length (in_flight ctx) = card (set (in_flight ctx))"
    using d by (simp add: distinct_card)
  also have "\<dots> = card (display_order ` set (in_flight ctx))"
    using inj by (simp add: card_image)
  also have "\<dots> = card (set (encode_fifo ctx))"
  proof -
    from assms(2) have "set (encode_fifo ctx) = display_order ` set (in_flight ctx)"
      by (simp add: fifo_ok_def)
    then show ?thesis by simp
  qed
  also have "\<dots> = length (encode_fifo ctx)"
  proof -
    from assms(2) have "distinct (encode_fifo ctx)" by (simp add: fifo_ok_def)
    then show ?thesis by (rule distinct_card)
  qed
  finally show ?thesis .
qed

lemma init_range:
  "(\<exists>ctx. ff_hw_base_encode_init depth = Inr ctx) \<longleftrightarrow> (1 \<le> depth \<and> depth \<le> 64)"
  by (simp add: ff_hw_base_encode_init_def MAX_ASYNC_DEPTH_def)

lemma issue_blocked:
  assumes "async_depth ctx \<le> int (length (encode_fifo ctx))"
  shows "issue k ctx = Inl EAGAIN"
  using assms by (simp add: issue_def)

lemma output_frees_slot:
  assumes "window_ok ctx" and "fifo_ok ctx" and "encode_fifo ctx \<noteq> []"
  shows "\<exists>ctx'. output_step ctx = Inr ctx' \<and> Suc (length (in_flight ctx')) = length (in_flight ctx)"
proof -
  from assms(3) obtain k rest where f: "encode_fifo ctx = k # rest"
    by (cases "encode_fifo ctx") auto
  define ctx' where "ctx' = ctx\<lparr>pic_window := update_pic k complete_pic (pic_window ctx),
                   output_order := output_order ctx + 1, encode_fifo := rest\<rparr>"
  have o: "output_step ctx = Inr ctx'"
    using f by (simp add: output_step_def ctx'_def)
  have "length (in_flight ctx') = length (encode_fifo ctx')"
    using window_ok_output [OF assms(1) o] fifo_ok_output [OF assms(1,2) o]
    by (rule length_in_flight)
  moreover have "encode_fifo ctx' = rest" by (simp add: ctx'_def)
  moreover have "length (in_flight ctx) = length (encode_fifo ctx)"
    using assms(1,2) by (rule length_in_flight)
  ultimately show ?thesis using o f by simp
qed

section \<open>The bounded pipeline\<close>

text \<open>
  Claim C5. \<^verbatim>\<open>async_depth\<close> is accepted only in the range 1..64. In every state a
  session reaches, the number of pictures issued and not yet output is at most
  \<^verbatim>\<open>async_depth\<close>. When that number equals \<^verbatim>\<open>async_depth\<close>, every request to
  issue a further picture is answered "would block", whichever picture is asked
  for, and an output event succeeds and leaves one slot free.
\<close>

theorem async_depth_bounds_in_flight:
  assumes "ff_hw_base_encode_init depth = Inr ctx0" and "run ctx0 evs = Inr ctx"
  shows "async_depth ctx = depth \<and> 1 \<le> depth \<and> depth \<le> 64 \<and>
         (\<forall>d. (\<exists>c. ff_hw_base_encode_init d = Inr c) \<longleftrightarrow> (1 \<le> d \<and> d \<le> 64)) \<and>
         int (length (in_flight ctx)) \<le> async_depth ctx \<and>
         (int (length (in_flight ctx)) = async_depth ctx \<longrightarrow>
            (\<forall>k. step ctx (Issue k) = Inl EAGAIN) \<and>
            (\<exists>ctx'. step ctx Output = Inr ctx' \<and>
                    int (length (in_flight ctx')) = async_depth ctx - 1))"
proof -
  from engine_inv_init [OF assms(1)] have i0: "engine_inv ctx0" and d0: "async_depth ctx0 = depth"
    and rng: "1 \<le> depth" "depth \<le> int MAX_ASYNC_DEPTH" by simp_all
  from engine_inv_run [OF i0 assms(2)] d0 have inv: "engine_inv ctx" and d: "async_depth ctx = depth"
    by simp_all
  from inv have w: "window_ok ctx" and f: "fifo_ok ctx" by (simp_all add: engine_inv_def)
  have len: "length (in_flight ctx) = length (encode_fifo ctx)"
    using w f by (rule length_in_flight)
  have bound: "int (length (in_flight ctx)) \<le> async_depth ctx"
    using f len by (simp add: fifo_ok_def)
  have full: "(\<forall>k. step ctx (Issue k) = Inl EAGAIN) \<and>
            (\<exists>ctx'. step ctx Output = Inr ctx' \<and>
                    int (length (in_flight ctx')) = async_depth ctx - 1)"
    if eq: "int (length (in_flight ctx)) = async_depth ctx"
  proof
    from eq len have "async_depth ctx \<le> int (length (encode_fifo ctx))" by simp
    then show "\<forall>k. step ctx (Issue k) = Inl EAGAIN"
      by (simp add: issue_blocked)
  next
    from eq len d rng(1) have "encode_fifo ctx \<noteq> []" by auto
    from output_frees_slot [OF w f this] obtain ctx' where
      "output_step ctx = Inr ctx'" "Suc (length (in_flight ctx')) = length (in_flight ctx)" by blast
    with eq show "\<exists>ctx'. step ctx Output = Inr ctx' \<and>
                    int (length (in_flight ctx')) = async_depth ctx - 1"
      by (intro exI [of _ ctx']) auto
  qed
  from d rng bound full init_range show ?thesis by (simp add: MAX_ASYNC_DEPTH_def)
qed

theorem async_depth_bounds_in_flight_witness:
  "\<exists>ctx0 ctx ctx'.
     ff_hw_base_encode_init 2 = Inr ctx0 \<and>
     run ctx0 [Admit 0 0, Admit 33 3, Admit 67 2, Issue 0, Issue 2] = Inr ctx \<and>
     map display_order (in_flight ctx) = [0, 2] \<and>
     int (length (in_flight ctx)) = async_depth ctx \<and>
     step ctx (Issue 1) = Inl EAGAIN \<and>
     step ctx Output = Inr ctx' \<and>
     int (length (in_flight ctx')) = async_depth ctx - 1"
proof -
  define ctx0 where "ctx0 = \<lparr>pic_window = [], input_order = 0, ctx_encode_order = 0,
    output_order = 0, end_of_stream = False, encode_fifo = [], async_depth = 2\<rparr>"
  define evs where "evs = [Admit 0 0, Admit 33 3, Admit 67 2, Issue 0, Issue 2]"
  have i: "ff_hw_base_encode_init 2 = Inr ctx0"
    by (simp add: ff_hw_base_encode_init_def MAX_ASYNC_DEPTH_def ctx0_def)
  have "\<exists>ctx. run ctx0 evs = Inr ctx \<and> map display_order (in_flight ctx) = [0, 2] \<and>
      async_depth ctx = 2"
    by (simp add: ctx0_def evs_def admit_def issue_def pick_def update_pic_def issue_pic_def
        build_def past_refs_def future_refs_def in_flight_def PICTURE_TYPE_IDR_def
        PICTURE_TYPE_I_def PICTURE_TYPE_P_def PICTURE_TYPE_B_def MAX_PICTURE_REFERENCES_def)
  then obtain ctx where r: "run ctx0 evs = Inr ctx"
    and fl: "map display_order (in_flight ctx) = [0, 2]" and d: "async_depth ctx = 2"
    by (elim exE conjE)
  from fl have "length (map display_order (in_flight ctx)) = 2" by simp
  with d have full: "int (length (in_flight ctx)) = async_depth ctx" by simp
  from async_depth_bounds_in_flight [OF i r] full
  obtain ctx' where o: "step ctx (Issue 1) = Inl EAGAIN" "step ctx Output = Inr ctx'"
    "int (length (in_flight ctx')) = async_depth ctx - 1"
    by blast
  from i r fl full o have
    "ff_hw_base_encode_init 2 = Inr ctx0 \<and>
     run ctx0 [Admit 0 0, Admit 33 3, Admit 67 2, Issue 0, Issue 2] = Inr ctx \<and>
     map display_order (in_flight ctx) = [0, 2] \<and>
     int (length (in_flight ctx)) = async_depth ctx \<and>
     step ctx (Issue 1) = Inl EAGAIN \<and>
     step ctx Output = Inr ctx' \<and>
     int (length (in_flight ctx')) = async_depth ctx - 1"
    unfolding evs_def by simp
  then show ?thesis
    by (rule_tac x = ctx0 in exI, rule_tac x = ctx in exI, rule_tac x = ctx' in exI)
qed

section \<open>Encode order\<close>

lemma refs_issue_pic:
  "refs (issue_pic w n x) = [past_refs w x, future_refs w x]"
  by (simp add: issue_pic_def build_def)


lemma nb_refs_capped:
  "nb_refs (issue_pic w n x) 0 \<le> MAX_PICTURE_REFERENCES"
  "nb_refs (issue_pic w n x) 1 \<le> MAX_PICTURE_REFERENCES"
  by (simp_all add: nb_refs_def refs_issue_pic past_refs_def future_refs_def)







end
